theory Spec2Isabelle
  imports
    Main
    "HOL-Library.Char_ord"
    "HOL-Library.List_Lexorder"
    "HOL-Library.Product_Lexorder"
    "HOL-Library.AList"
    "HOL-Library.Sublist"
    "HOL-Library.Multiset"
begin

section \<open>Strings\<close>

text \<open>
  A Python \<open>str\<close> is a sequence of code points. It is modelled as a \<^typ>\<open>string\<close>, a list
  of \<^typ>\<open>char\<close>; a \<^typ>\<open>char\<close> is read as a code point in the range 0..255, and
  \<open>HOL-Library.Char_ord\<close> orders characters by that number, as Python compares them.
  The character classes of the regular expressions in \<open>kube-images.py\<close> are explicit ASCII
  ranges (no flags are given to \<open>re.compile\<close>), so they are ranges of code points.
\<close>

definition in_range :: "char \<Rightarrow> char \<Rightarrow> char \<Rightarrow> bool" where
  "in_range lo hi c = (lo \<le> c \<and> c \<le> hi)"

definition is_alpha :: "char \<Rightarrow> bool" where
  \<comment> \<open>\<open>[a-zA-Z]\<close>\<close>
  "is_alpha c = (in_range CHR ''a'' CHR ''z'' c \<or> in_range CHR ''A'' CHR ''Z'' c)"

definition is_digit :: "char \<Rightarrow> bool" where
  \<comment> \<open>\<open>[0-9]\<close>\<close>
  "is_digit c = in_range CHR ''0'' CHR ''9'' c"

definition is_alnum :: "char \<Rightarrow> bool" where
  \<comment> \<open>\<open>[A-Za-z0-9]\<close>\<close>
  "is_alnum c = (is_alpha c \<or> is_digit c)"

definition is_scheme_char :: "char \<Rightarrow> bool" where
  \<comment> \<open>\<open>[a-zA-Z0-9+.\-]\<close>\<close>
  "is_scheme_char c = (is_alnum c \<or> c = CHR ''+'' \<or> c = CHR ''.'' \<or> c = CHR ''-'')"

definition is_algo_char :: "char \<Rightarrow> bool" where
  \<comment> \<open>\<open>[A-Za-z0-9_+.\-]\<close>\<close>
  "is_algo_char c = (is_alnum c \<or> c = CHR ''_'' \<or> c = CHR ''+'' \<or> c = CHR ''.'' \<or> c = CHR ''-'')"

definition is_hex_char :: "char \<Rightarrow> bool" where
  \<comment> \<open>\<open>[A-Fa-f0-9]\<close>\<close>
  "is_hex_char c = (in_range CHR ''A'' CHR ''F'' c \<or> in_range CHR ''a'' CHR ''f'' c \<or> is_digit c)"

definition is_space :: "char \<Rightarrow> bool" where
  \<comment> \<open>\<open>str.isspace\<close> on the code points below 256: TAB..CR, FS..US, space, NEL, NBSP\<close>
  "is_space c = (in_range (CHR 0x09) (CHR 0x0D) c \<or> in_range (CHR 0x1C) (CHR 0x20) c
                 \<or> c = CHR 0x85 \<or> c = CHR 0xA0)"

definition py_strip :: "string \<Rightarrow> string" where
  \<comment> \<open>\<open>s.strip()\<close>: leading and trailing whitespace removed\<close>
  "py_strip s = rev (dropWhile is_space (rev (dropWhile is_space s)))"

definition lower_char :: "char \<Rightarrow> char" where
  \<comment> \<open>\<open>str.lower\<close> on one code point below 256: A..Z and the Latin-1 capitals
      0xC0..0xDE (without the multiplication sign 0xD7) move up by 32\<close>
  "lower_char c =
     (if in_range CHR ''A'' CHR ''Z'' c
         \<or> (in_range (CHR 0xC0) (CHR 0xDE) c \<and> c \<noteq> CHR 0xD7)
      then char_of ((of_char c :: nat) + 32) else c)"

definition py_lower :: "string \<Rightarrow> string" where
  "py_lower s = map lower_char s"

section \<open>Models\<close>

record ContainerImage =
  ref :: string
  name :: string
  digest :: "string option"

section \<open>Parsing and normalization: \<open>ImageReferenceParser\<close>\<close>

subsection \<open>The three regular expressions\<close>

text \<open>
  \<open>_SCHEME_RE = ^[a-zA-Z][a-zA-Z0-9+.\-]*://\<close>. The pattern is anchored, so it can only
  match at position 0. The starred class contains neither \<open>:\<close> nor \<open>/\<close>, so the only
  repetition count after which \<open>://\<close> can follow is the maximal one: the backtracking
  matcher succeeds exactly when the longest run of class characters is followed by \<open>://\<close>.
  \<open>scheme_match\<close> returns what is left of the string after the match.
\<close>

definition scheme_match :: "string \<Rightarrow> string option" where
  "scheme_match s =
     (case s of
        [] \<Rightarrow> None
      | c # t \<Rightarrow>
          if is_alpha c then
            (let r = dropWhile is_scheme_char t
             in if prefix ''://'' r then Some (drop 3 r) else None)
          else None)"

text \<open>
  \<open>_DIGEST_RE = ([A-Za-z0-9_+.\-]+):([A-Fa-f0-9]{32,128})\<close>, tried at one start position.
  The first class does not contain \<open>:\<close>, so group 1 is the maximal run of class characters
  (non-empty); a colon must follow; group 2 is greedy and nothing follows it in the pattern,
  so it is the first 128 characters at most of the run of hex characters, which must be at
  least 32 long.
\<close>

definition digest_match_at :: "string \<Rightarrow> (string \<times> string) option" where
  "digest_match_at s =
     (let algo = takeWhile is_algo_char s; rest = dropWhile is_algo_char s
      in if algo = [] then None
         else (case rest of
                 [] \<Rightarrow> None
               | c # t \<Rightarrow>
                   if c = CHR '':'' then
                     (let run = takeWhile is_hex_char t
                      in if 32 \<le> length run then Some (algo, take 128 run) else None)
                   else None))"

text \<open>\<open>_DIGEST_RE.search\<close>: the match at the leftmost start position that has one.\<close>

fun digest_search :: "string \<Rightarrow> (string \<times> string) option" where
  "digest_search [] = None"
| "digest_search (c # t) =
     (case digest_match_at (c # t) of
        Some m \<Rightarrow> Some m
      | None \<Rightarrow> digest_search t)"

text \<open>\<open>_AT_DIGEST_RE = @([A-Za-z0-9_+.\-]+):([A-Fa-f0-9]{32,128})\<close>: an \<open>@\<close>, then the
  digest pattern.\<close>

definition at_digest_match_at :: "string \<Rightarrow> (string \<times> string) option" where
  "at_digest_match_at s =
     (case s of
        [] \<Rightarrow> None
      | c # t \<Rightarrow> if c = CHR ''@'' then digest_match_at t else None)"

fun at_digest_search :: "string \<Rightarrow> (string \<times> string) option" where
  "at_digest_search [] = None"
| "at_digest_search (c # t) =
     (case at_digest_match_at (c # t) of
        Some m \<Rightarrow> Some m
      | None \<Rightarrow> at_digest_search t)"

subsection \<open>The static methods\<close>

definition or_empty :: "string option \<Rightarrow> string" where
  \<comment> \<open>\<open>x or ''\<close> for an optional string \<open>x\<close>\<close>
  "or_empty x = (case x of None \<Rightarrow> [] | Some s \<Rightarrow> s)"

definition strip_scheme :: "string \<Rightarrow> string" where
  \<comment> \<open>\<open>_SCHEME_RE.sub\<close> with the empty replacement: the one possible match, at position 0, is removed\<close>
  "strip_scheme s =
     (if s = [] then s
      else (case scheme_match s of Some r \<Rightarrow> r | None \<Rightarrow> s))"

definition is_valid_image_ref :: "string option \<Rightarrow> bool" where
  "is_valid_image_ref image_str =
     (let s = strip_scheme (py_strip (or_empty image_str))
      in if s = [] then False
         else if prefix '':'' s \<or> prefix ''@'' s then False
         else
           \<comment> \<open>\<open>re.split\<close> on \<open>[@:]\<close>, first piece: what precedes the first \<open>@\<close> or \<open>:\<close>\<close>
           (let name_part = takeWhile (\<lambda>c. c \<noteq> CHR ''@'' \<and> c \<noteq> CHR '':'') s
            in if \<not> list_ex is_alnum name_part then False else True))"

fun extract_digest :: "string option list \<Rightarrow> string option" where
  "extract_digest [] = None"
| "extract_digest (candidate # candidates) =
     (case candidate of
        None \<Rightarrow> extract_digest candidates
      | Some s \<Rightarrow>
          if s = [] then extract_digest candidates
          else (case digest_search s of
                  Some (algo, hexd) \<Rightarrow> Some (algo @ '':'' @ hexd)
                | None \<Rightarrow> extract_digest candidates))"

definition short_name :: "string \<Rightarrow> string" where
  "short_name image_ref =
     (if image_ref = [] then ''unknown''
      else
        (let no_scheme = strip_scheme image_ref;
             \<comment> \<open>\<open>rsplit\<close> on the slash, last piece: what follows the last slash\<close>
             tail1 = rev (takeWhile (\<lambda>c. c \<noteq> CHR ''/'') (rev no_scheme));
             tail2 = takeWhile (\<lambda>c. c \<noteq> CHR ''@'') tail1;
             tail3 = (if CHR '':'' \<in> set tail2
                      then takeWhile (\<lambda>c. c \<noteq> CHR '':'') tail2 else tail2)
         in if tail3 = [] then ''unknown'' else tail3))"

definition compose_reference :: "string \<Rightarrow> string option \<Rightarrow> string" where
  "compose_reference image_str dg =
     (let normalized = strip_scheme image_str
      in if at_digest_search normalized \<noteq> None then normalized
         else (case dg of
                 Some d \<Rightarrow> if d \<noteq> [] then normalized @ ''@'' @ d else normalized
               | None \<Rightarrow> normalized))"

definition uniqueness_key :: "string \<Rightarrow> string option \<Rightarrow> string" where
  \<comment> \<open>\<open>(digest or ref).lower()\<close>: \<open>None\<close> and the empty string are both falsy\<close>
  "uniqueness_key r dg =
     py_lower (case dg of
                 None \<Rightarrow> r
               | Some d \<Rightarrow> if d \<noteq> [] then d else r)"


subsection \<open>Images of one workload\<close>

text \<open>
  The entries of \<open>containerStatuses\<close> and of \<open>spec.containers\<close> are dictionaries read with
  \<open>.get\<close>: a missing key is \<open>None\<close>. A status list that is missing (not a \<open>list\<close>) is
  \<open>None\<close> as well.
\<close>

record container_status =
  status_image :: "string option"
  status_imageID :: "string option"

record container_spec =
  spec_image :: "string option"

text \<open>One iteration of the loop of \<open>from_statuses\<close>; \<open>None\<close> is the \<open>continue\<close>.\<close>

definition image_from_status :: "container_status \<Rightarrow> ContainerImage option" where
  "image_from_status status =
     (let img = strip_scheme (or_empty (status_image status));
          image_id = strip_scheme (or_empty (status_imageID status))
      in if \<not> is_valid_image_ref (Some img) then None
         else
           (let dg = extract_digest [Some image_id, Some img];
                r = compose_reference img dg;
                n = short_name (if r \<noteq> [] then r else img)
            in Some \<lparr>ref = r, name = n, digest = dg\<rparr>))"

fun statuses_loop :: "container_status list \<Rightarrow> ContainerImage list \<Rightarrow> ContainerImage list" where
  "statuses_loop [] results = results"
| "statuses_loop (status # rest) results =
     (case image_from_status status of
        None \<Rightarrow> statuses_loop rest results
      | Some ci \<Rightarrow> statuses_loop rest (results @ [ci]))"

definition from_statuses :: "container_status list option \<Rightarrow> ContainerImage list" where
  "from_statuses statuses =
     (case statuses of None \<Rightarrow> [] | Some sts \<Rightarrow> statuses_loop sts [])"

text \<open>One iteration of the loop of \<open>from_container_specs\<close>.\<close>

definition image_from_spec :: "container_spec \<Rightarrow> ContainerImage option" where
  "image_from_spec container =
     (let img = strip_scheme (or_empty (spec_image container))
      in if \<not> is_valid_image_ref (Some img) then None
         else
           (let dg = extract_digest [Some img];
                r = compose_reference img dg;
                n = short_name (if r \<noteq> [] then r else img)
            in Some \<lparr>ref = r, name = n, digest = dg\<rparr>))"

fun specs_loop :: "container_spec list \<Rightarrow> ContainerImage list \<Rightarrow> ContainerImage list" where
  "specs_loop [] results = results"
| "specs_loop (container # rest) results =
     (case image_from_spec container of
        None \<Rightarrow> specs_loop rest results
      | Some ci \<Rightarrow> specs_loop rest (results @ [ci]))"

definition from_container_specs :: "container_spec list option \<Rightarrow> ContainerImage list" where
  "from_container_specs cs =
     (case cs of None \<Rightarrow> [] | Some l \<Rightarrow> specs_loop l [])"

section \<open>Scanning: \<open>KubernetesImageScanner\<close>\<close>

subsection \<open>Dictionaries\<close>

text \<open>
  A Python \<open>dict\<close> keeps insertion order, so it is an association list with distinct keys.
  Assignment \<open>d[k] = v\<close> is \<^const>\<open>AList.update\<close> (in place when the key exists, at the end
  otherwise) and lookup is \<^const>\<open>map_of\<close>.
\<close>

definition setdefault :: "'k \<Rightarrow> 'v \<Rightarrow> ('k \<times> 'v) list \<Rightarrow> ('k \<times> 'v) list" where
  "setdefault k v d = (case map_of d k of None \<Rightarrow> d @ [(k, v)] | Some _ \<Rightarrow> d)"

subsection \<open>One pod\<close>

record pod =
  namespace :: "string option"
  containerStatuses :: "container_status list option"
  initContainerStatuses :: "container_status list option"
  ephemeralContainerStatuses :: "container_status list option"
  containers :: "container_spec list option"

definition CONTAINER_STATUS_KEYS :: "(pod \<Rightarrow> container_status list option) list" where
  "CONTAINER_STATUS_KEYS =
     [containerStatuses, initContainerStatuses, ephemeralContainerStatuses]"

definition status_images :: "pod \<Rightarrow> ContainerImage list" where
  \<comment> \<open>\<open>collected\<close> after the loop over the status keys\<close>
  "status_images p =
     fold (\<lambda>key collected. collected @ from_statuses (key p)) CONTAINER_STATUS_KEYS []"

definition collect_images :: "pod \<Rightarrow> ContainerImage list" where
  "collect_images p =
     (let collected = status_images p
      in if collected = [] then collected @ from_container_specs (containers p)
         else collected)"

definition pod_namespace :: "pod \<Rightarrow> string" where
  "pod_namespace p =
     (case namespace p of
        None \<Rightarrow> ''default''
      | Some n \<Rightarrow> if n = [] then ''default'' else n)"

subsection \<open>Aggregation per namespace\<close>

type_synonym bucket = "(string \<times> ContainerImage) list"

type_synonym scan_result = "(string \<times> ContainerImage list) list"

definition image_key :: "ContainerImage \<Rightarrow> string" where
  "image_key im = uniqueness_key (ref im) (digest im)"

definition add_image :: "ContainerImage \<Rightarrow> bucket \<Rightarrow> bucket" where
  \<comment> \<open>\<open>ns_bucket.setdefault(ukey, image)\<close>\<close>
  "add_image im ns_bucket = setdefault (image_key im) im ns_bucket"

text \<open>
  The body of the loop over the pods. \<open>ns_bucket\<close> is the dictionary stored under the
  namespace, so what the inner loop inserts is visible in \<open>images_by_namespace\<close>.
\<close>

definition process_pod :: "pod \<Rightarrow> (string \<times> bucket) list \<Rightarrow> (string \<times> bucket) list" where
  "process_pod p images_by_namespace =
     (let ns = pod_namespace p;
          ibn = setdefault ns [] images_by_namespace;
          ns_bucket = (case map_of ibn ns of None \<Rightarrow> [] | Some b \<Rightarrow> b);
          collected = collect_images p
      in AList.update ns (fold add_image collected ns_bucket) ibn)"

definition sorted_images :: "bucket \<Rightarrow> ContainerImage list" where
  \<comment> \<open>\<open>sorted(image_map.values(), key=lambda x: (x.name, x.ref))\<close>, a stable sort\<close>
  "sorted_images image_map = sort_key (\<lambda>x. (name x, ref x)) (map snd image_map)"

definition build_result :: "(string \<times> bucket) list \<Rightarrow> scan_result" where
  "build_result images_by_namespace =
     fold (\<lambda>(ns, image_map) result. AList.update ns (sorted_images image_map) result)
       images_by_namespace []"

definition scan_pods :: "pod list \<Rightarrow> scan_result" where
  \<comment> \<open>lines 333 to 362 of \<open>scan_single_context\<close>, from the retrieved pods to the result\<close>
  "scan_pods pods = build_result (fold process_pod pods [])"

subsection \<open>Pagination\<close>

text \<open>
  What a scan can raise: an \<open>ApiException\<close>, carrying its text, or any other exception,
  carrying its class name and its text.
\<close>

datatype scan_error = ApiException string | OtherException string string

text \<open>
  One response of \<open>list_pod_for_all_namespaces\<close> after \<open>sanitize_for_serialization\<close>:
  the items (\<open>[]\<close> when the key is missing) and \<open>metadata.continue\<close> (\<open>None\<close> when missing).
\<close>

record 'i page =
  page_items :: "'i list"
  page_continue :: "string option"

text \<open>
  The remote source is outside the program. It is a function from its own state and the
  \<open>_continue\<close> argument of the request to a response, or a raised error, and its next state.
\<close>

type_synonym ('s, 'i) source = "'s \<Rightarrow> string option \<Rightarrow> (scan_error + 'i page) \<times> 's"

definition falsy :: "string option \<Rightarrow> bool" where
  \<comment> \<open>\<open>not continue_token\<close>\<close>
  "falsy tok = (tok = None \<or> tok = Some [])"

text \<open>
  The \<open>while True\<close> loop of \<open>_list_pods_across_all_namespaces\<close>. It has no bound, so it is a
  partial function: \<open>None\<close> is a loop that never leaves.
\<close>

partial_function (option) list_pods_loop ::
  "('s, 'i) source \<Rightarrow> 's \<Rightarrow> string option \<Rightarrow> 'i list \<Rightarrow> ((scan_error + 'i list) \<times> 's) option"
where
  "list_pods_loop src st continue_token items =
     (case src st continue_token of
        (Inl exc, st') \<Rightarrow> Some (Inl exc, st')
      | (Inr data, st') \<Rightarrow>
          if falsy (page_continue data) then Some (Inr (items @ page_items data), st')
          else list_pods_loop src st' (page_continue data) (items @ page_items data))"

definition list_pods_across_all_namespaces ::
  "('s, 'i) source \<Rightarrow> 's \<Rightarrow> ((scan_error + 'i list) \<times> 's) option"
where
  "list_pods_across_all_namespaces src st = list_pods_loop src st None []"

definition scan_single_context :: "('s, pod) source \<Rightarrow> 's \<Rightarrow> (scan_error + scan_result) option" where
  "scan_single_context src st =
     (case list_pods_across_all_namespaces src st of
        None \<Rightarrow> None
      | Some (Inl exc, _) \<Rightarrow> Some (Inl exc)
      | Some (Inr pods, _) \<Rightarrow> Some (Inr (scan_pods pods)))"

text \<open>
  Two sources to run the loop on. \<open>replay\<close> answers with the pages of a script in turn,
  whatever the cursor, and records the cursor of every request it receives; once the script
  is used up it raises. \<open>same_token\<close> answers every request with an empty page and the same
  continuation token.
\<close>

definition replay :: "('i page list \<times> string option list, 'i) source" where
  "replay st tok =
     (case st of
        ([], requests) \<Rightarrow> (Inl (ApiException ''no more pages''), ([], requests @ [tok]))
      | (p # ps, requests) \<Rightarrow> (Inr p, (ps, requests @ [tok])))"

definition same_token :: "string \<Rightarrow> (unit, 'i) source" where
  "same_token t st tok = (Inr \<lparr>page_items = [], page_continue = Some t\<rparr>, st)"

text \<open>
  \<open>ends_within n src st tok\<close>: driven from state \<open>st\<close> with cursor \<open>tok\<close>, the source raises
  or answers with an empty or absent token at one of the next \<open>n\<close> requests.
\<close>

fun ends_within :: "nat \<Rightarrow> ('s, 'i) source \<Rightarrow> 's \<Rightarrow> string option \<Rightarrow> bool" where
  "ends_within 0 src st tok = False"
| "ends_within (Suc n) src st tok =
     (case src st tok of
        (Inl exc, st') \<Rightarrow> True
      | (Inr data, st') \<Rightarrow>
          falsy (page_continue data) \<or> ends_within n src st' (page_continue data))"

subsection \<open>Many contexts\<close>

text \<open>
  The dictionary returned by \<open>scan_multiple_contexts\<close> holds two kinds of values: the result
  of a context, and, under \<open>__errors__\<close>, the dictionary of the error messages.
\<close>

datatype entry = ContextEntry scan_result | ErrorsEntry "(string \<times> string) list"

definition error_message :: "scan_error \<Rightarrow> string" where
  "error_message exc =
     (case exc of
        ApiException text \<Rightarrow> ''Kubernetes API error: '' @ text
      | OtherException cls text \<Rightarrow> ''Unexpected error: '' @ cls @ '': '' @ text)"

text \<open>
  What \<open>future.result()\<close> gives for one future: the result of \<open>scan_single_context\<close>, or the
  exception it raised. The state of the clusters is outside the program, so the outcomes
  are inputs of the model.
\<close>

type_synonym outcome = "scan_error + scan_result"

text \<open>
  The body of the loop over \<open>as_completed(futures)\<close>, for one future: the pair of the name it
  was submitted for (\<open>futures[future]\<close>) and of its outcome.
\<close>

definition record_outcome ::
  "string \<times> outcome \<Rightarrow>
   (string \<times> entry) list \<times> (string \<times> string) list \<Rightarrow>
   (string \<times> entry) list \<times> (string \<times> string) list"
where
  "record_outcome future acc =
     (case future of (context_name, res) \<Rightarrow>
        (case acc of (results, errors) \<Rightarrow>
           (case res of
              Inr r \<Rightarrow> (AList.update context_name (ContextEntry r) results, errors)
            | Inl exc \<Rightarrow> (results, AList.update context_name (error_message exc) errors))))"

text \<open>
  The dictionary \<open>futures\<close> has one future per element of \<open>names\<close>, so a name that is given
  twice has two futures, each with an outcome of its own. \<open>completed\<close> lists these futures
  in the order in which \<open>as_completed\<close> yields them, decided by the thread pool: the names in
  it are some arrangement of the submitted names. The size of the pool only bounds how many
  scans run at once; a size below 1 makes the constructor of the executor raise, a caller
  error that is left out here.
\<close>

definition scan_multiple_contexts ::
  "string list \<Rightarrow> (string \<times> outcome) list \<Rightarrow> (string \<times> entry) list"
where
  "scan_multiple_contexts context_names completed =
     (if context_names = [] then []
      else
        (case fold record_outcome completed ([], []) of (results, errors) \<Rightarrow>
           if errors \<noteq> [] then AList.update ''__errors__'' (ErrorsEntry errors) results
           else results))"

subsection \<open>The wrapper \<open>scan_images\<close>\<close>

record ScanResult =
  contexts :: "(string \<times> entry) list"
  errors :: entry

definition entry_empty :: "entry \<Rightarrow> bool" where
  \<comment> \<open>an empty dictionary is falsy, whatever it was meant to hold\<close>
  "entry_empty e = (case e of ContextEntry r \<Rightarrow> r = [] | ErrorsEntry m \<Rightarrow> m = [])"

text \<open>
  Lines 456 to 474, after discovery: the raw dictionary of \<open>scan_multiple_contexts\<close> is split
  into the error dictionary, popped from the key \<open>__errors__\<close> when that key is present, and
  the rest. Every value is a dictionary, so the filter \<open>isinstance(v, dict)\<close> keeps every
  remaining entry.
\<close>

definition scan_images ::
  "string list \<Rightarrow> (string \<times> outcome) list \<Rightarrow> ScanResult"
where
  "scan_images chosen_contexts completed =
     (let raw = scan_multiple_contexts chosen_contexts completed
      in (case map_of raw ''__errors__'' of
            None \<Rightarrow> \<lparr>contexts = raw, errors = ErrorsEntry []\<rparr>
          | Some e \<Rightarrow>
              \<lparr>contexts = AList.delete ''__errors__'' raw,
               errors = (if entry_empty e then ErrorsEntry [] else e)\<rparr>))"

section \<open>Auxiliary definitions for the statements and the proofs\<close>

text \<open>
  A digest of the form \<open>algorithm:hex\<close>: a string that \<open>_DIGEST_RE\<close> matches from its
  first to its last character.
\<close>

definition digest_form :: "string \<Rightarrow> bool" where
  "digest_form d =
     (case digest_match_at d of
        None \<Rightarrow> False
      | Some (algo, hexd) \<Rightarrow> d = algo @ '':'' @ hexd)"

text \<open>The entries of an optional list: none when the list is missing.\<close>

definition entries :: "'a list option \<Rightarrow> 'a list" where
  "entries l = (case l of None \<Rightarrow> [] | Some xs \<Rightarrow> xs)"






text \<open>The two dictionaries \<open>results\<close> and \<open>errors\<close> once every future has been handled.\<close>

definition collected ::
  "(string \<times> outcome) list \<Rightarrow> (string \<times> entry) list \<times> (string \<times> string) list"
where
  "collected completed = fold record_outcome completed ([], [])"

subsection \<open>Inputs of the examples\<close>


text \<open>Three pages of 2, 2 and 1 items with the tokens \<open>T1\<close>, \<open>T2\<close> and the empty token.\<close>

definition example_pages :: "nat page list" where
  "example_pages =
     [\<lparr>page_items = [1, 2], page_continue = Some ''T1''\<rparr>,
      \<lparr>page_items = [3, 4], page_continue = Some ''T2''\<rparr>,
      \<lparr>page_items = [5], page_continue = Some ''''\<rparr>]"

text \<open>The result of a scan that succeeds, and the error of a listing that is refused.\<close>

definition redis_result :: scan_result where
  "redis_result = [(''default'', [\<lparr>ref = ''redis:7'', name = ''redis'', digest = None\<rparr>])]"

definition forbidden :: scan_error where
  "forbidden = ApiException ''(403) Forbidden''"

section \<open>Properties of the reference parser\<close>

subsection \<open>Character facts\<close>

lemma at_not_space: "\<not> is_space CHR ''@''"
  by code_simp

lemma at_not_alpha: "\<not> is_alpha CHR ''@''"
  by code_simp

lemma at_not_scheme: "\<not> is_scheme_char CHR ''@''"
  by code_simp

lemma colon_not_algo: "\<not> is_algo_char CHR '':''"
  by code_simp

subsection \<open>Validity\<close>

lemma py_strip_Cons_nonspace:
  assumes "\<not> is_space c"
  shows "\<exists>r. py_strip (c # t) = c # r"
proof -
  have "dropWhile is_space (rev t @ [c]) =
          dropWhile is_space (rev t)
          @ (if \<forall>x\<in>set (rev t). is_space x then dropWhile is_space [c] else [c])"
    by (simp add: dropWhile_append)
  then obtain u where "dropWhile is_space (rev t @ [c]) = u @ [c]"
    using assms by (auto split: if_splits)
  then show ?thesis using assms by (simp add: py_strip_def)
qed

lemma strip_scheme_Cons_nonalpha: "\<not> is_alpha c \<Longrightarrow> strip_scheme (c # t) = c # t"
  by (simp add: strip_scheme_def scheme_match_def)

lemma invalid_leading:
  assumes "\<not> is_space c" "\<not> is_alpha c" "c = CHR '':'' \<or> c = CHR ''@''"
  shows "\<not> is_valid_image_ref (Some (c # t))"
proof -
  obtain r where r: "py_strip (c # t) = c # r"
    using py_strip_Cons_nonspace[OF assms(1)] by blast
  show ?thesis using assms(2,3)
    by (auto simp add: is_valid_image_ref_def or_empty_def r strip_scheme_Cons_nonalpha Let_def)
qed

lemma is_valid_image_ref_iff:
  "is_valid_image_ref (Some s) \<longleftrightarrow>
     (let t = strip_scheme (py_strip s)
      in t \<noteq> [] \<and> \<not> prefix '':'' t \<and> \<not> prefix ''@'' t
         \<and> (\<exists>c \<in> set (takeWhile (\<lambda>c. c \<noteq> CHR ''@'' \<and> c \<noteq> CHR '':'') t). is_alnum c))"
  by (simp add: is_valid_image_ref_def or_empty_def Let_def list_ex_iff)

lemma py_strip_spaces:
  assumes "list_all is_space pre" "list_all is_space post"
  shows "py_strip (pre @ s @ post) = py_strip s"
proof -
  have a: "dropWhile is_space (pre @ s @ post) = dropWhile is_space (s @ post)"
    using assms(1) by (intro dropWhile_append2) (auto simp: list_all_iff)
  have b: "dropWhile is_space (rev post @ xs) = dropWhile is_space xs" for xs
    using assms(2) by (intro dropWhile_append2) (auto simp: list_all_iff)
  have c: "py_strip (pre @ s @ post)
             = rev (dropWhile is_space (rev (dropWhile is_space (s @ post))))"
    unfolding py_strip_def a ..
  show ?thesis
  proof (cases "\<forall>x \<in> set s. is_space x")
    case True
    then have "\<forall>x \<in> set (s @ post). is_space x"
      using assms(2) by (auto simp: list_all_iff)
    then have e1: "dropWhile is_space (s @ post) = []"
      by (simp only: dropWhile_eq_Nil_conv)
    from True have e2: "dropWhile is_space s = []"
      by (simp only: dropWhile_eq_Nil_conv)
    have "py_strip (pre @ s @ post) = []" unfolding c e1 by simp
    moreover have "py_strip s = []" unfolding py_strip_def e2 by simp
    ultimately show ?thesis by simp
  next
    case False
    then have e: "dropWhile is_space (s @ post) = dropWhile is_space s @ post"
      by (auto simp: dropWhile_append)
    have "py_strip (pre @ s @ post)
            = rev (dropWhile is_space (rev post @ rev (dropWhile is_space s)))"
      unfolding c e by simp
    then show ?thesis unfolding b py_strip_def .
  qed
qed

lemma is_valid_spaces:
  "list_all is_space pre \<Longrightarrow> list_all is_space post \<Longrightarrow>
   is_valid_image_ref (Some (pre @ s @ post)) = is_valid_image_ref (Some s)"
  by (simp add: is_valid_image_ref_def or_empty_def py_strip_spaces del: append.simps)

text \<open>
  Claim C7, as the claim states it, names the two normalisations in the order scheme first,
  whitespace second. The code trims first (\<open>strip_scheme((image or "").strip())\<close>), and the
  order matters: in \<open> docker://:x\<close>, with a leading space, trimming uncovers the scheme,
  stripping it leaves \<open>:x\<close>, and the reference is invalid; in the order of the claim the
  anchored scheme pattern does not match behind the space, trimming leaves \<open>docker://:x\<close>,
  which is not empty, starts with neither \<open>:\<close> nor \<open>@\<close> and has the alphanumeric part
  \<open>docker\<close> before its first colon, so the claim takes the reference for valid.
\<close>

theorem is_valid_image_ref_order_counterexample:
  "\<not> is_valid_image_ref (Some '' docker://:x'')
   \<and> py_strip (strip_scheme '' docker://:x'') = ''docker://:x''
   \<and> \<not> prefix '':'' ''docker://:x''
   \<and> \<not> prefix ''@'' ''docker://:x''
   \<and> takeWhile (\<lambda>c. c \<noteq> CHR ''@'' \<and> c \<noteq> CHR '':'') ''docker://:x'' = ''docker''
   \<and> list_ex is_alnum ''docker''"
  by code_simp

text \<open>
  Claim C7, amended. \<open>is_valid_image_ref s\<close> is false exactly when the string \<open>t\<close>, obtained
  from \<open>s\<close> by trimming whitespace first and stripping a leading transport scheme from the
  trimmed string second, is empty, or starts with \<open>:\<close> or \<open>@\<close>, or has no alphanumeric
  character before its first \<open>:\<close> or \<open>@\<close>. Whitespace around a string therefore never
  changes the answer. It is false for the empty string, for \<open>:\<close>, for \<open>:v1.2.3\<close> and for
  \<open>@sha256:\<close> followed by 64 hex characters.
\<close>

theorem is_valid_image_ref_trim_then_strip:
  "(\<not> is_valid_image_ref (Some s) \<longleftrightarrow>
     (let t = strip_scheme (py_strip s)
      in t = [] \<or> prefix '':'' t \<or> prefix ''@'' t
         \<or> \<not> (\<exists>c \<in> set (takeWhile (\<lambda>c. c \<noteq> CHR ''@'' \<and> c \<noteq> CHR '':'') t). is_alnum c)))
   \<and> (list_all is_space pre \<and> list_all is_space post
        \<longrightarrow> is_valid_image_ref (Some (pre @ s @ post)) = is_valid_image_ref (Some s))
   \<and> \<not> is_valid_image_ref (Some '''')
   \<and> \<not> is_valid_image_ref (Some '':'')
   \<and> \<not> is_valid_image_ref (Some '':v1.2.3'')
   \<and> (length h = 64 \<and> list_all is_hex_char h
        \<longrightarrow> \<not> is_valid_image_ref (Some (''@sha256:'' @ h)))"
proof -
  have a: "\<not> is_valid_image_ref (Some '''')" by code_simp
  have b: "\<not> is_valid_image_ref (Some '':'')" by code_simp
  have c: "\<not> is_valid_image_ref (Some '':v1.2.3'')" by code_simp
  have d: "\<not> is_valid_image_ref (Some (''@sha256:'' @ h))"
    using invalid_leading[OF at_not_space at_not_alpha] by simp
  have e: "list_all is_space pre \<and> list_all is_space post
        \<longrightarrow> is_valid_image_ref (Some (pre @ s @ post)) = is_valid_image_ref (Some s)"
    using is_valid_spaces[of pre post s] by blast
  have f: "\<not> is_valid_image_ref (Some s) \<longleftrightarrow>
     (let t = strip_scheme (py_strip s)
      in t = [] \<or> prefix '':'' t \<or> prefix ''@'' t
         \<or> \<not> (\<exists>c \<in> set (takeWhile (\<lambda>c. c \<noteq> CHR ''@'' \<and> c \<noteq> CHR '':'') t). is_alnum c))"
    by (simp add: is_valid_image_ref_iff Let_def)
  from a b c d e f show ?thesis by blast
qed

text \<open>
  The theorem at \<open>docker://:x\<close> between a space and a tab with a line feed: trimmed and
  stripped of its scheme it starts with a colon, so it is invalid with and without the
  whitespace; and at a digest of 64 hex characters.
\<close>

theorem is_valid_image_ref_trim_then_strip_witness:
  "list_all is_space '' '' \<and> list_all is_space [CHR 0x09, CHR 0x0A]
   \<and> \<not> is_valid_image_ref (Some ''docker://:x'')
   \<and> \<not> is_valid_image_ref (Some ('' '' @ ''docker://:x'' @ [CHR 0x09, CHR 0x0A]))
   \<and> length ''0123456789abcdef0123456789abcdef0123456789abcdef0123456789abcdef'' = 64
   \<and> list_all is_hex_char ''0123456789abcdef0123456789abcdef0123456789abcdef0123456789abcdef''
   \<and> \<not> is_valid_image_ref
         (Some (''@sha256:'' @ ''0123456789abcdef0123456789abcdef0123456789abcdef0123456789abcdef''))"
proof -
  have r: "let t = strip_scheme (py_strip ''docker://:x'')
           in t = [] \<or> prefix '':'' t \<or> prefix ''@'' t
              \<or> \<not> (\<exists>c \<in> set (takeWhile (\<lambda>c. c \<noteq> CHR ''@'' \<and> c \<noteq> CHR '':'') t). is_alnum c)"
    by code_simp
  have w: "list_all is_space '' '' \<and> list_all is_space [CHR 0x09, CHR 0x0A]"
    by code_simp
  have h: "length ''0123456789abcdef0123456789abcdef0123456789abcdef0123456789abcdef'' = 64
           \<and> list_all is_hex_char ''0123456789abcdef0123456789abcdef0123456789abcdef0123456789abcdef''"
    by code_simp
  from is_valid_image_ref_trim_then_strip
         [of "''docker://:x''" "'' ''" "[CHR 0x09, CHR 0x0A]"
             "''0123456789abcdef0123456789abcdef0123456789abcdef0123456789abcdef''"] r w h
  show ?thesis by blast
qed

subsection \<open>The digest patterns\<close>

lemma digest_match_at_SomeD:
  assumes "digest_match_at s = Some (algo, hexd)"
  shows "algo \<noteq> [] \<and> (\<forall>c \<in> set algo. is_algo_char c) \<and> (\<forall>c \<in> set hexd. is_hex_char c)
         \<and> 32 \<le> length hexd \<and> length hexd \<le> 128"
proof -
  have a: "algo = takeWhile is_algo_char s" "algo \<noteq> []"
    using assms by (auto simp: digest_match_at_def Let_def split: if_splits list.splits)
  obtain t where t: "hexd = take 128 (takeWhile is_hex_char t)"
      "32 \<le> length (takeWhile is_hex_char t)"
    using assms by (auto simp: digest_match_at_def Let_def split: if_splits list.splits)
  have "\<forall>c \<in> set algo. is_algo_char c"
    using a(1) by (auto dest: set_takeWhileD)
  moreover have "\<forall>c \<in> set hexd. is_hex_char c"
    using t(1) by (auto dest: in_set_takeD set_takeWhileD)
  moreover have "32 \<le> length hexd \<and> length hexd \<le> 128"
    using t by simp
  ultimately show ?thesis using a(2) by simp
qed

lemma digest_match_at_compose:
  assumes "algo \<noteq> []" "\<forall>c \<in> set algo. is_algo_char c" "\<forall>c \<in> set hexd. is_hex_char c"
    "32 \<le> length hexd" "length hexd \<le> 128"
  shows "digest_match_at (algo @ '':'' @ hexd) = Some (algo, hexd)"
proof -
  have tw: "takeWhile is_algo_char (algo @ '':'' @ hexd) = algo"
    using assms(2) colon_not_algo by (simp add: takeWhile_append2)
  have dw: "dropWhile is_algo_char (algo @ '':'' @ hexd) = CHR '':'' # hexd"
    using assms(2) colon_not_algo by (simp add: dropWhile_append2)
  have hx: "takeWhile is_hex_char hexd = hexd"
    using assms(3) by (simp add: takeWhile_eq_all_conv)
  show ?thesis
    using assms(1,4,5) by (simp add: digest_match_at_def tw dw hx del: append.simps)
qed

lemma digest_form_match:
  "digest_match_at s = Some (algo, hexd) \<Longrightarrow> digest_form (algo @ '':'' @ hexd)"
  using digest_match_at_compose[of algo hexd] digest_match_at_SomeD[of s algo hexd]
  by (simp add: digest_form_def)

lemma digest_search_SomeD:
  "digest_search s = Some m \<Longrightarrow> \<exists>s'. suffix s' s \<and> digest_match_at s' = Some m"
proof (induction s)
  case Nil
  then show ?case by simp
next
  case (Cons c t)
  show ?case
  proof (cases "digest_match_at (c # t)")
    case None
    with Cons obtain s' where "suffix s' t" "digest_match_at s' = Some m" by auto
    then show ?thesis by (auto intro: suffix_ConsI)
  next
    case (Some a)
    with Cons.prems show ?thesis by auto
  qed
qed

lemma extract_digest_form: "extract_digest cs = Some d \<Longrightarrow> digest_form d"
proof (induction cs)
  case Nil
  then show ?case by simp
next
  case (Cons c cs)
  then show ?case
    by (auto split: option.splits if_splits prod.splits
             dest!: digest_search_SomeD dest: digest_form_match)
qed

lemma digest_form_nonempty: "digest_form d \<Longrightarrow> d \<noteq> []"
  by (auto simp: digest_form_def digest_match_at_def)

lemma at_digest_search_append:
  "at_digest_match_at ys \<noteq> None \<Longrightarrow> at_digest_search (xs @ ys) \<noteq> None"
proof (induction xs)
  case Nil
  show ?case
  proof (cases ys)
    case Nil
    with Nil.prems show ?thesis by (simp add: at_digest_match_at_def)
  next
    case (Cons y t)
    with Nil.prems show ?thesis by (cases "at_digest_match_at (y # t)") auto
  qed
next
  case (Cons x xs)
  then show ?case by (auto split: option.splits)
qed

lemma at_digest_search_appended:
  "digest_form d \<Longrightarrow> at_digest_search (n @ ''@'' @ d) \<noteq> None"
  by (rule at_digest_search_append)
     (auto simp: at_digest_match_at_def digest_form_def split: option.splits)

subsection \<open>Scheme stripping and an appended digest\<close>

lemma scheme_match_shorter:
  assumes "scheme_match s = Some r"
  shows "length r < length s"
proof -
  obtain c t where s: "s = c # t" and r: "r = drop 3 (dropWhile is_scheme_char t)"
    using assms by (auto simp: scheme_match_def Let_def split: list.splits if_splits)
  have "length (dropWhile is_scheme_char t) \<le> length t"
    by (rule length_dropWhile_le)
  then show ?thesis using s r by simp
qed

lemma strip_scheme_fixed_iff: "strip_scheme s = s \<longleftrightarrow> s = [] \<or> scheme_match s = None"
  using scheme_match_shorter[of s] by (auto simp: strip_scheme_def split: option.splits)

lemma not_prefix_scheme_sep_append:
  "\<not> prefix ''://'' r \<Longrightarrow> \<not> prefix ''://'' (r @ CHR ''@'' # d)"
  by (cases r; cases "tl r"; cases "tl (tl r)") auto

lemma scheme_match_append_at:
  assumes "scheme_match s = None"
  shows "scheme_match (s @ CHR ''@'' # d) = None"
proof (cases s)
  case Nil
  then show ?thesis using at_not_alpha by (simp add: scheme_match_def)
next
  case (Cons c t)
  show ?thesis
  proof (cases "is_alpha c")
    case False
    then show ?thesis using Cons by (simp add: scheme_match_def)
  next
    case True
    with assms Cons have np: "\<not> prefix ''://'' (dropWhile is_scheme_char t)"
      by (simp add: scheme_match_def Let_def split: if_splits)
    have "dropWhile is_scheme_char (t @ CHR ''@'' # d)
            = dropWhile is_scheme_char t @ CHR ''@'' # d"
      using at_not_scheme by (auto simp: dropWhile_append)
    then show ?thesis
      using np True Cons not_prefix_scheme_sep_append[OF np, of d]
      by (simp add: scheme_match_def Let_def)
  qed
qed

lemma strip_scheme_append_at:
  "strip_scheme s = s \<Longrightarrow> strip_scheme (s @ CHR ''@'' # d) = s @ CHR ''@'' # d"
  using scheme_match_append_at[of s d] scheme_match_append_at[of "[]" d]
  by (auto simp: strip_scheme_fixed_iff scheme_match_def)


subsection \<open>Composing a reference twice\<close>

text \<open>
  Claim C6, as the claim states it, fails at an image string with two transport schemes:
  \<open>strip_scheme\<close> removes one scheme, so the second call of \<open>compose_reference\<close> removes the
  scheme that the first call left.
\<close>

theorem compose_reference_two_schemes_counterexample:
  "is_valid_image_ref (Some ''docker://oci://nginx'')
   \<and> digest_form ''sha256:0123456789abcdef0123456789abcdef''
   \<and> compose_reference ''docker://oci://nginx'' (Some ''sha256:0123456789abcdef0123456789abcdef'')
       = ''oci://nginx@sha256:0123456789abcdef0123456789abcdef''
   \<and> compose_reference
         (compose_reference ''docker://oci://nginx''
            (Some ''sha256:0123456789abcdef0123456789abcdef''))
         (Some ''sha256:0123456789abcdef0123456789abcdef'')
       = ''nginx@sha256:0123456789abcdef0123456789abcdef''"
  by code_simp

text \<open>
  Claim C6, amended. For every image string whose scheme-stripped form does not itself start
  with a transport scheme, and every digest \<open>d\<close> of the form \<open>algorithm:hex\<close>, composing
  twice gives what composing once gives. A string that already holds an embedded
  \<open>@algorithm:hex\<close> digest once its scheme is stripped is returned scheme-stripped and
  otherwise unchanged, whatever digest is supplied.
\<close>

theorem compose_reference_idempotent:
  assumes "strip_scheme (strip_scheme i) = strip_scheme i" and "digest_form d"
  shows "compose_reference (compose_reference i (Some d)) (Some d) = compose_reference i (Some d)
         \<and> (at_digest_search (strip_scheme i) \<noteq> None
              \<longrightarrow> compose_reference i dg = strip_scheme i)"
proof (cases "at_digest_search (strip_scheme i) = None")
  case False
  then show ?thesis using assms(1) by (simp add: compose_reference_def)
next
  case True
  have ne: "d \<noteq> []" using assms(2) by (rule digest_form_nonempty)
  have c1: "compose_reference i (Some d) = strip_scheme i @ ''@'' @ d"
    using True ne by (simp add: compose_reference_def)
  have s: "strip_scheme (strip_scheme i @ ''@'' @ d) = strip_scheme i @ ''@'' @ d"
    using strip_scheme_append_at[OF assms(1), of d] by simp
  have m: "at_digest_search (strip_scheme i @ ''@'' @ d) \<noteq> None"
    by (rule at_digest_search_appended[OF assms(2)])
  have "compose_reference (strip_scheme i @ ''@'' @ d) (Some d) = strip_scheme i @ ''@'' @ d"
    using s m by (simp add: compose_reference_def del: append.simps)
  then show ?thesis using True c1 by simp
qed

theorem compose_reference_idempotent_witness:
  "strip_scheme (strip_scheme ''docker://nginx:1.25'') = strip_scheme ''docker://nginx:1.25''
   \<and> digest_form ''sha256:0123456789abcdef0123456789abcdef''
   \<and> compose_reference
         (compose_reference ''docker://nginx:1.25''
            (Some ''sha256:0123456789abcdef0123456789abcdef''))
         (Some ''sha256:0123456789abcdef0123456789abcdef'')
       = compose_reference ''docker://nginx:1.25''
           (Some ''sha256:0123456789abcdef0123456789abcdef'')
   \<and> compose_reference ''docker://nginx:1.25'' (Some ''sha256:0123456789abcdef0123456789abcdef'')
       = ''nginx:1.25@sha256:0123456789abcdef0123456789abcdef''"
proof -
  have h1: "strip_scheme (strip_scheme ''docker://nginx:1.25'')
              = strip_scheme ''docker://nginx:1.25''"
    by code_simp
  have h2: "digest_form ''sha256:0123456789abcdef0123456789abcdef''"
    by code_simp
  have v: "compose_reference ''docker://nginx:1.25''
             (Some ''sha256:0123456789abcdef0123456789abcdef'')
           = ''nginx:1.25@sha256:0123456789abcdef0123456789abcdef''"
    by code_simp
  from compose_reference_idempotent[OF h1 h2] h1 h2 v show ?thesis by blast
qed

section \<open>Properties of the extraction\<close>

lemma statuses_loop_eq: "statuses_loop sts acc = acc @ List.map_filter image_from_status sts"
  by (induction sts arbitrary: acc) (auto simp: List.map_filter_simps split: option.splits)

lemma specs_loop_eq: "specs_loop cs acc = acc @ List.map_filter image_from_spec cs"
  by (induction cs arbitrary: acc) (auto simp: List.map_filter_simps split: option.splits)

lemma from_statuses_eq:
  "from_statuses statuses = List.map_filter image_from_status (entries statuses)"
  by (simp add: from_statuses_def entries_def statuses_loop_eq List.map_filter_simps
           split: option.splits)

lemma from_container_specs_eq:
  "from_container_specs cs = List.map_filter image_from_spec (entries cs)"
  by (simp add: from_container_specs_def entries_def specs_loop_eq List.map_filter_simps
           split: option.splits)

lemma in_map_filterD: "y \<in> set (List.map_filter f xs) \<Longrightarrow> \<exists>x \<in> set xs. f x = Some y"
  by (auto simp: List.map_filter_def)



subsection \<open>The digest of an image and its reference\<close>




subsection \<open>Statuses before specs\<close>

lemma status_images_eq:
  "status_images p =
     from_statuses (containerStatuses p) @ from_statuses (initContainerStatuses p)
     @ from_statuses (ephemeralContainerStatuses p)"
  by (simp add: status_images_def CONTAINER_STATUS_KEYS_def)

text \<open>
  Claim C9. The images collected from the statuses of a pod are those of the three status
  categories, in that order, and do not depend on the declared containers. When there is at
  least one, the images of the pod are exactly these, whatever the declared containers are;
  when there is none, the images of the pod are those of the declared containers. A pod with
  empty status arrays and one declared container \<open>nginx:1.25\<close> yields the one image named
  \<open>nginx\<close>, with that reference and no digest.
\<close>

theorem collect_images_statuses_first:
  "status_images p =
     from_statuses (containerStatuses p) @ from_statuses (initContainerStatuses p)
     @ from_statuses (ephemeralContainerStatuses p)
   \<and> status_images (p\<lparr>containers := cs'\<rparr>) = status_images p
   \<and> (status_images p \<noteq> []
        \<longrightarrow> collect_images p = status_images p
            \<and> collect_images (p\<lparr>containers := cs'\<rparr>) = collect_images p)
   \<and> (status_images p = [] \<longrightarrow> collect_images p = from_container_specs (containers p))
   \<and> collect_images
        \<lparr>namespace = ns, containerStatuses = Some [], initContainerStatuses = Some [],
         ephemeralContainerStatuses = Some [],
         containers = Some [\<lparr>spec_image = Some ''nginx:1.25''\<rparr>]\<rparr>
       = [\<lparr>ref = ''nginx:1.25'', name = ''nginx'', digest = None\<rparr>]"
proof -
  have e: "from_container_specs (Some [\<lparr>spec_image = Some ''nginx:1.25''\<rparr>])
           = [\<lparr>ref = ''nginx:1.25'', name = ''nginx'', digest = None\<rparr>]"
    by code_simp
  have n: "from_statuses (Some []) = []"
    by (simp add: from_statuses_def)
  show ?thesis
    by (simp add: status_images_eq collect_images_def Let_def e n)
qed

text \<open>
  The theorem at a pod whose one running container reports \<open>redis:7\<close> while the spec
  declares \<open>nginx:1.25\<close> as well: only \<open>redis:7\<close> is collected, and replacing the declared
  containers changes nothing.
\<close>

theorem collect_images_statuses_first_witness:
  "status_images
     \<lparr>namespace = None,
      containerStatuses = Some [\<lparr>status_image = Some ''redis:7'', status_imageID = None\<rparr>],
      initContainerStatuses = None, ephemeralContainerStatuses = None,
      containers = Some [\<lparr>spec_image = Some ''redis:7''\<rparr>, \<lparr>spec_image = Some ''nginx:1.25''\<rparr>]\<rparr>
     \<noteq> []
   \<and> collect_images
       \<lparr>namespace = None,
        containerStatuses = Some [\<lparr>status_image = Some ''redis:7'', status_imageID = None\<rparr>],
        initContainerStatuses = None, ephemeralContainerStatuses = None,
        containers = Some [\<lparr>spec_image = Some ''redis:7''\<rparr>, \<lparr>spec_image = Some ''nginx:1.25''\<rparr>]\<rparr>
     = [\<lparr>ref = ''redis:7'', name = ''redis'', digest = None\<rparr>]
   \<and> collect_images
       \<lparr>namespace = None,
        containerStatuses = Some [\<lparr>status_image = Some ''redis:7'', status_imageID = None\<rparr>],
        initContainerStatuses = None, ephemeralContainerStatuses = None,
        containers = None\<rparr>
     = [\<lparr>ref = ''redis:7'', name = ''redis'', digest = None\<rparr>]"
proof -
  let ?p = "\<lparr>namespace = None,
      containerStatuses = Some [\<lparr>status_image = Some ''redis:7'', status_imageID = None\<rparr>],
      initContainerStatuses = None, ephemeralContainerStatuses = None,
      containers = Some [\<lparr>spec_image = Some ''redis:7''\<rparr>, \<lparr>spec_image = Some ''nginx:1.25''\<rparr>]\<rparr>"
  have v: "status_images ?p = [\<lparr>ref = ''redis:7'', name = ''redis'', digest = None\<rparr>]"
    by code_simp
  then have h: "status_images ?p \<noteq> []" by simp
  from collect_images_statuses_first[of ?p None] h v show ?thesis by simp
qed

subsection \<open>The identity key\<close>

lemma lower_char_idem: "lower_char (lower_char c) = lower_char c"
proof (cases "in_range CHR ''A'' CHR ''Z'' c
              \<or> (in_range (CHR 0xC0) (CHR 0xDE) c \<and> c \<noteq> CHR 0xD7)")
  case False
  then have "lower_char c = c" unfolding lower_char_def by (rule if_not_P)
  then show ?thesis by simp
next
  case True
  define n where "n = (of_char c :: nat)"
  have r: "(65 \<le> n \<and> n \<le> 90) \<or> (192 \<le> n \<and> n \<le> 222)"
    using True by (auto simp: in_range_def less_eq_char_def n_def)
  have l: "lower_char c = char_of (n + 32)"
    using True unfolding lower_char_def n_def by (rule if_P)
  have o: "(of_char (char_of (n + 32) :: char) :: nat) = n + 32"
    using r by auto
  have "\<not> in_range CHR ''A'' CHR ''Z'' (char_of (n + 32))"
    using r o by (auto simp: in_range_def less_eq_char_def)
  moreover have "\<not> in_range (CHR 0xC0) (CHR 0xDE) (char_of (n + 32))"
    using r o by (auto simp: in_range_def less_eq_char_def)
  ultimately have "\<not> (in_range CHR ''A'' CHR ''Z'' (char_of (n + 32))
        \<or> (in_range (CHR 0xC0) (CHR 0xDE) (char_of (n + 32)) \<and> char_of (n + 32) \<noteq> CHR 0xD7))"
    by blast
  then have "lower_char (char_of (n + 32)) = char_of (n + 32)"
    unfolding lower_char_def by (rule if_not_P)
  then show ?thesis unfolding l .
qed

lemma py_lower_idem: "py_lower (py_lower s) = py_lower s"
  by (simp add: py_lower_def lower_char_idem)

text \<open>The key in every case of the source, the empty string being falsy like \<open>None\<close>.\<close>

lemma uniqueness_key_cases:
  "uniqueness_key r None = py_lower r"
  "uniqueness_key r (Some d) = (if d \<noteq> [] then py_lower d else py_lower r)"
  by (simp_all add: uniqueness_key_def)

lemma image_from_status_digest_form:
  assumes "image_from_status status = Some ci" "digest ci = Some d"
  shows "digest_form d"
proof -
  let ?img = "strip_scheme (or_empty (status_image status))"
  let ?id = "strip_scheme (or_empty (status_imageID status))"
  have "digest ci = extract_digest [Some ?id, Some ?img]"
    using assms(1) unfolding image_from_status_def Let_def
    by (auto simp del: extract_digest.simps split: if_splits)
  then show ?thesis using assms(2) extract_digest_form by metis
qed

lemma image_from_spec_digest_form:
  assumes "image_from_spec c = Some ci" "digest ci = Some d"
  shows "digest_form d"
proof -
  let ?img = "strip_scheme (or_empty (spec_image c))"
  have "digest ci = extract_digest [Some ?img]"
    using assms(1) unfolding image_from_spec_def Let_def
    by (auto simp del: extract_digest.simps split: if_splits)
  then show ?thesis using assms(2) extract_digest_form by metis
qed

text \<open>A digest that the extraction has found has the form \<open>algorithm:hex\<close>.\<close>

lemma extracted_digest_form:
  assumes "ci \<in> set (from_statuses statuses) \<union> set (from_container_specs cs)"
    and "digest ci = Some d"
  shows "digest_form d"
  using assms image_from_status_digest_form image_from_spec_digest_form
  by (auto simp: from_statuses_eq from_container_specs_eq dest!: in_map_filterD)

text \<open>
  Claim C8. A digest is a string of the form \<open>algorithm:hex\<close>. For every reference and
  every optional digest, \<open>uniqueness_key\<close> is the digest, lower-cased, when there is one, and
  the reference, lower-cased, when there is none. The key is in lower case, and a reference
  and its lower-cased form have the same key, as \<open>Repo/App:v1\<close> and \<open>repo/app:v1\<close> do: the
  key is case-insensitive. Two references with the same digest have the same key, and so
  have any two images that the extraction gives the same digest, whatever their references
  and tags.
\<close>

theorem uniqueness_key_prefers_digest:
  "uniqueness_key r None = py_lower r
   \<and> (digest_form d \<longrightarrow> uniqueness_key r (Some d) = py_lower d)
   \<and> py_lower (uniqueness_key r dg) = uniqueness_key r dg
   \<and> uniqueness_key (py_lower r) None = uniqueness_key r None
   \<and> (py_lower r1 = py_lower r2 \<longrightarrow> uniqueness_key r1 None = uniqueness_key r2 None)
   \<and> uniqueness_key ''Repo/App:v1'' None = uniqueness_key ''repo/app:v1'' None
   \<and> (digest_form d \<longrightarrow> uniqueness_key r1 (Some d) = uniqueness_key r2 (Some d))
   \<and> (ci1 \<in> set (from_statuses sts1) \<union> set (from_container_specs cs1)
        \<and> ci2 \<in> set (from_statuses sts2) \<union> set (from_container_specs cs2)
        \<and> digest ci1 = Some d \<and> digest ci2 = Some d
        \<longrightarrow> uniqueness_key (ref ci1) (digest ci1) = uniqueness_key (ref ci2) (digest ci2))"
proof -
  have ex: "uniqueness_key ''Repo/App:v1'' None = uniqueness_key ''repo/app:v1'' None"
    by code_simp
  have dg: "digest_form d \<longrightarrow> uniqueness_key x (Some d) = py_lower d" for x
    using digest_form_nonempty[of d] by (auto simp: uniqueness_key_cases)
  have low: "py_lower (uniqueness_key r dg) = uniqueness_key r dg"
    by (cases dg) (simp_all add: uniqueness_key_cases py_lower_idem)
  have same: "uniqueness_key (py_lower r) None = uniqueness_key r None"
    by (simp add: uniqueness_key_cases py_lower_idem)
  have im: "ci1 \<in> set (from_statuses sts1) \<union> set (from_container_specs cs1)
        \<and> ci2 \<in> set (from_statuses sts2) \<union> set (from_container_specs cs2)
        \<and> digest ci1 = Some d \<and> digest ci2 = Some d
        \<longrightarrow> uniqueness_key (ref ci1) (digest ci1) = uniqueness_key (ref ci2) (digest ci2)"
  proof (intro impI, elim conjE)
    assume m: "ci1 \<in> set (from_statuses sts1) \<union> set (from_container_specs cs1)"
      and d1: "digest ci1 = Some d" and d2: "digest ci2 = Some d"
    have "digest_form d" by (rule extracted_digest_form[OF m d1])
    then show "uniqueness_key (ref ci1) (digest ci1) = uniqueness_key (ref ci2) (digest ci2)"
      using dg[of "ref ci1"] dg[of "ref ci2"] d1 d2 by simp
  qed
  show ?thesis
    using ex dg[of r] dg[of r1] dg[of r2] low same im
    by (simp add: uniqueness_key_cases)
qed

text \<open>
  The theorem at two references that differ in case and tag, with one digest, and at the two
  images that the extraction makes of \<open>nginx:1.25\<close> and of \<open>nginx:latest\<close> when both
  containers report that digest.
\<close>

theorem uniqueness_key_prefers_digest_witness:
  "digest_form ''sha256:0123456789ABCDEF0123456789abcdef''
   \<and> uniqueness_key ''GHCR.io/Org/App:1'' (Some ''sha256:0123456789ABCDEF0123456789abcdef'')
       = uniqueness_key ''ghcr.io/org/app:2'' (Some ''sha256:0123456789ABCDEF0123456789abcdef'')
   \<and> uniqueness_key ''GHCR.io/Org/App:1'' (Some ''sha256:0123456789ABCDEF0123456789abcdef'')
       = py_lower ''sha256:0123456789ABCDEF0123456789abcdef''
   \<and> py_lower ''sha256:0123456789ABCDEF0123456789abcdef''
       = ''sha256:0123456789abcdef0123456789abcdef''
   \<and> uniqueness_key (py_lower ''GHCR.io/Org/App:1'') None
       = uniqueness_key ''GHCR.io/Org/App:1'' None
   \<and> \<lparr>ref = ''nginx:1.25@sha256:0123456789ABCDEF0123456789abcdef'', name = ''nginx'',
        digest = Some ''sha256:0123456789ABCDEF0123456789abcdef''\<rparr>
       \<in> set (from_statuses
                (Some [\<lparr>status_image = Some ''nginx:1.25'',
                        status_imageID =
                          Some ''docker-pullable://nginx@sha256:0123456789ABCDEF0123456789abcdef''\<rparr>]))
         \<union> set (from_container_specs None)
   \<and> \<lparr>ref = ''nginx:latest@sha256:0123456789ABCDEF0123456789abcdef'', name = ''nginx'',
        digest = Some ''sha256:0123456789ABCDEF0123456789abcdef''\<rparr>
       \<in> set (from_statuses None)
         \<union> set (from_container_specs
                  (Some [\<lparr>spec_image =
                            Some ''nginx:latest@sha256:0123456789ABCDEF0123456789abcdef''\<rparr>]))
   \<and> uniqueness_key ''nginx:1.25@sha256:0123456789ABCDEF0123456789abcdef''
         (Some ''sha256:0123456789ABCDEF0123456789abcdef'')
       = uniqueness_key ''nginx:latest@sha256:0123456789ABCDEF0123456789abcdef''
           (Some ''sha256:0123456789ABCDEF0123456789abcdef'')"
proof -
  let ?d = "''sha256:0123456789ABCDEF0123456789abcdef''"
  let ?c1 = "\<lparr>ref = ''nginx:1.25@sha256:0123456789ABCDEF0123456789abcdef'', name = ''nginx'',
               digest = Some ?d\<rparr>"
  let ?c2 = "\<lparr>ref = ''nginx:latest@sha256:0123456789ABCDEF0123456789abcdef'', name = ''nginx'',
               digest = Some ?d\<rparr>"
  let ?s1 = "Some [\<lparr>status_image = Some ''nginx:1.25'',
                    status_imageID =
                      Some ''docker-pullable://nginx@sha256:0123456789ABCDEF0123456789abcdef''\<rparr>]"
  let ?k2 = "Some [\<lparr>spec_image =
                       Some ''nginx:latest@sha256:0123456789ABCDEF0123456789abcdef''\<rparr>]"
  have f: "digest_form ?d" by code_simp
  have l: "py_lower ?d = ''sha256:0123456789abcdef0123456789abcdef''" by code_simp
  have m1: "?c1 \<in> set (from_statuses ?s1) \<union> set (from_container_specs None)"
    by code_simp
  have m2: "?c2 \<in> set (from_statuses None) \<union> set (from_container_specs ?k2)"
    by code_simp
  have d1: "digest ?c1 = Some ?d" and d2: "digest ?c2 = Some ?d"
    by simp_all
  note t = uniqueness_key_prefers_digest
             [of "''GHCR.io/Org/App:1''" ?d None "''GHCR.io/Org/App:1''" "''ghcr.io/org/app:2''"
                 ?c1 ?s1 None ?c2 None ?k2]
  have e: "uniqueness_key (ref ?c1) (digest ?c1) = uniqueness_key (ref ?c2) (digest ?c2)"
    using t m1 m2 d1 d2 by blast
  have e': "uniqueness_key ''nginx:1.25@sha256:0123456789ABCDEF0123456789abcdef'' (Some ?d)
            = uniqueness_key ''nginx:latest@sha256:0123456789ABCDEF0123456789abcdef'' (Some ?d)"
    using e by simp
  from t f l m1 m2 e' show ?thesis by metis
qed

section \<open>Properties of the aggregation\<close>

subsection \<open>Dictionaries\<close>





lemma map_of_delete: "map_of (AList.delete k al) n = (if n = k then None else map_of al n)"
  by (simp add: delete_conv')

subsection \<open>One bucket\<close>




subsection \<open>The loop over the pods\<close>








subsection \<open>The result\<close>









section \<open>Properties of the pagination\<close>

lemma ends_within_returns:
  "ends_within n src st tok \<Longrightarrow> \<exists>r. list_pods_loop src st tok items = Some r"
proof (induction n arbitrary: st tok items)
  case 0
  then show ?case by simp
next
  case (Suc n)
  obtain resp st' where s: "src st tok = (resp, st')" by (cases "src st tok")
  show ?case
  proof (cases resp)
    case (Inl exc)
    then show ?thesis using s by (subst list_pods_loop.simps) simp
  next
    case (Inr data)
    show ?thesis
    proof (cases "falsy (page_continue data)")
      case True
      then show ?thesis using s Inr by (subst list_pods_loop.simps) simp
    next
      case False
      with Suc.prems s Inr have "ends_within n src st' (page_continue data)" by simp
      from Suc.IH[OF this, of "items @ page_items data"] show ?thesis
        using s Inr False by (subst list_pods_loop.simps) simp
    qed
  qed
qed

lemma returns_ends_within:
  fixes source :: "('s, 'i) source"
  assumes "list_pods_loop source st0 tok0 items0 = Some r0"
  shows "\<exists>n. ends_within n source st0 tok0"
proof (rule list_pods_loop.raw_induct
         [where P = "\<lambda>src st tok items r. \<exists>n. ends_within n src st tok", OF _ assms])
  fix f and src :: "('s, 'i) source" and st tok and items :: "'i list"
    and r :: "(scan_error + 'i list) \<times> 's"
  assume IH: "\<And>src st tok items r.
                f src st tok items = Some r \<Longrightarrow> \<exists>n. ends_within n src st tok"
    and body: "(case src st tok of
                  (Inl exc, st') \<Rightarrow> Some (Inl exc, st')
                | (Inr data, st') \<Rightarrow>
                    if falsy (page_continue data) then Some (Inr (items @ page_items data), st')
                    else f src st' (page_continue data) (items @ page_items data)) = Some r"
  obtain resp st' where s: "src st tok = (resp, st')" by (cases "src st tok")
  show "\<exists>n. ends_within n src st tok"
  proof (cases resp)
    case (Inl exc)
    then have "ends_within (Suc 0) src st tok" using s by simp
    then show ?thesis by blast
  next
    case (Inr data)
    show ?thesis
    proof (cases "falsy (page_continue data)")
      case True
      then have "ends_within (Suc 0) src st tok" using s Inr by simp
      then show ?thesis by blast
    next
      case False
      with body s Inr have "f src st' (page_continue data) (items @ page_items data) = Some r"
        by simp
      from IH[OF this] obtain n where "ends_within n src st' (page_continue data)" by blast
      then have "ends_within (Suc n) src st tok" using s Inr False by simp
      then show ?thesis by blast
    qed
  qed
qed

lemma same_token_never_ends: "t \<noteq> [] \<Longrightarrow> \<not> ends_within n (same_token t) st tok"
  by (induction n arbitrary: tok) (simp_all add: same_token_def falsy_def)

lemma same_token_loops:
  fixes st :: unit and items :: "'i list"
  assumes "t \<noteq> []"
  shows "list_pods_loop (same_token t) st tok items = None"
proof (cases "list_pods_loop (same_token t) st tok items")
  case None
  then show ?thesis .
next
  case (Some r)
  then have "\<exists>n. ends_within n (same_token t :: (unit, 'i) source) st tok"
    by (rule returns_ends_within)
  then show ?thesis using same_token_never_ends[OF assms] by blast
qed

lemma replay_run:
  assumes "\<forall>p \<in> set ps. \<not> falsy (page_continue p)" "falsy (page_continue lastp)"
  shows "list_pods_loop replay (ps @ lastp # extra, requests) tok items =
           Some (Inr (items @ concat (map page_items (ps @ [lastp]))),
                 (extra, requests @ tok # map page_continue ps))"
  using assms(1)
proof (induction ps arbitrary: requests tok items)
  case Nil
  show ?case using assms(2) by (subst list_pods_loop.simps) (simp add: replay_def)
next
  case (Cons p ps)
  have np: "\<not> falsy (page_continue p)"
    and rest: "\<forall>p \<in> set ps. \<not> falsy (page_continue p)"
    using Cons.prems by simp_all
  have "list_pods_loop replay ((p # ps) @ lastp # extra, requests) tok items =
          list_pods_loop replay (ps @ lastp # extra, requests @ [tok]) (page_continue p)
            (items @ page_items p)"
    using np by (subst list_pods_loop.simps) (simp add: replay_def)
  then show ?case
    using Cons.IH[OF rest, of "requests @ [tok]" "page_continue p" "items @ page_items p"]
    by simp
qed

lemma scan_single_context_outcome:
  "list_pods_across_all_namespaces src st = Some (Inr pods, st')
     \<Longrightarrow> scan_single_context src st = Some (Inr (scan_pods pods))"
  "list_pods_across_all_namespaces src st = Some (Inl exc, st')
     \<Longrightarrow> scan_single_context src st = Some (Inl exc)"
  "list_pods_across_all_namespaces src st = None \<Longrightarrow> scan_single_context src st = None"
  by (simp_all add: scan_single_context_def)

subsection \<open>Termination\<close>

text \<open>
  Claim C4, as the claim states it, fails: the loop has no test for a repeated token. On a
  source that answers every request with the same non-empty token \<open>T\<close> it never returns.
\<close>

theorem list_pods_same_token_counterexample:
  "list_pods_across_all_namespaces (same_token ''T'' :: (unit, pod) source) () = None"
  unfolding list_pods_across_all_namespaces_def by (rule same_token_loops) simp

text \<open>
  Claim C4, amended. The pagination loop returns exactly when the source, asked first
  without a cursor and then with the token of its previous answer, raises or answers with
  an empty or absent token after finitely many requests. On a source that repeats one
  non-empty token for ever it does not return.
\<close>

theorem list_pods_returns_iff:
  fixes src :: "('s, 'i) source" and u :: unit
  shows "((\<exists>r. list_pods_across_all_namespaces src st = Some r)
            \<longleftrightarrow> (\<exists>n. ends_within n src st None))
         \<and> (t \<noteq> []
              \<longrightarrow> list_pods_across_all_namespaces (same_token t :: (unit, 'i) source) u = None)"
proof -
  have "(\<exists>r. list_pods_loop src st None [] = Some r) \<longleftrightarrow> (\<exists>n. ends_within n src st None)"
    using ends_within_returns[of _ src st None "[]"] returns_ends_within[of src st None "[]"]
    by blast
  moreover have "t \<noteq> [] \<longrightarrow> list_pods_loop (same_token t :: (unit, 'i) source) u None [] = None"
    using same_token_loops[of t u None "[]"] by blast
  ultimately show ?thesis by (simp add: list_pods_across_all_namespaces_def)
qed

text \<open>
  The theorem at the source that replays the three example pages: the third answer holds
  the empty token, so the loop returns.
\<close>

theorem list_pods_returns_iff_witness:
  "ends_within 3 replay (example_pages, []) None
   \<and> (\<exists>r. list_pods_across_all_namespaces replay (example_pages, []) = Some r)
   \<and> ''T'' \<noteq> []
   \<and> list_pods_across_all_namespaces (same_token ''T'' :: (unit, nat) source) () = None"
proof -
  have h: "ends_within 3 replay (example_pages, []) None"
    by code_simp
  then have e: "\<exists>n. ends_within n replay (example_pages, []) None" ..
  have t: "''T'' \<noteq> []" by simp
  from list_pods_returns_iff
         [of replay "(example_pages, [])" "''T''" "()"] h e t
  show ?thesis by blast
qed

subsection \<open>The accumulated items\<close>

text \<open>
  Claim C5. Against a source that answers with the pages \<open>ps\<close>, each with a non-empty
  token, then with a page \<open>lastp\<close> whose token is empty or absent, the lister returns the
  items of all these pages, concatenated in page order. The requests the source has
  received are one without cursor, then one with the token of each page of \<open>ps\<close> in turn;
  no request follows the page \<open>lastp\<close>, so whatever pages \<open>extra\<close> the source still holds
  stay unread.
\<close>

theorem list_pods_replay:
  assumes "\<forall>p \<in> set ps. \<not> falsy (page_continue p)" and "falsy (page_continue lastp)"
  shows "list_pods_across_all_namespaces replay (ps @ lastp # extra, []) =
           Some (Inr (concat (map page_items (ps @ [lastp]))),
                 (extra, None # map page_continue ps))"
  using replay_run[OF assms, of extra "[]" None "[]"]
  by (simp add: list_pods_across_all_namespaces_def)

text \<open>
  The theorem at three pages of sizes 2, 2 and 1 with the tokens \<open>T1\<close>, \<open>T2\<close> and the empty
  string: five items, three requests.
\<close>

theorem list_pods_replay_witness:
  "\<not> falsy (Some ''T1'') \<and> \<not> falsy (Some ''T2'')
   \<and> falsy (page_continue \<lparr>page_items = [5 :: nat], page_continue = Some ''''\<rparr>)
   \<and> list_pods_across_all_namespaces replay (example_pages, []) =
       Some (Inr [1, 2, 3, 4, 5], ([], [None, Some ''T1'', Some ''T2'']))
   \<and> length [1, 2, 3, 4, 5 :: nat] = 5"
proof -
  let ?ps = "[\<lparr>page_items = [1, 2 :: nat], page_continue = Some ''T1''\<rparr>,
              \<lparr>page_items = [3, 4], page_continue = Some ''T2''\<rparr>]"
  let ?lastp = "\<lparr>page_items = [5 :: nat], page_continue = Some ''''\<rparr>"
  have h1: "\<forall>p \<in> set ?ps. \<not> falsy (page_continue p)"
    by (simp add: falsy_def)
  have h2: "falsy (page_continue ?lastp)"
    by (simp add: falsy_def)
  have p: "example_pages = ?ps @ ?lastp # []"
    by (simp add: example_pages_def)
  have h3: "\<not> falsy (Some ''T1'') \<and> \<not> falsy (Some ''T2'')"
    by (simp add: falsy_def)
  from list_pods_replay[OF h1 h2, of "[]"] h2 h3 show ?thesis
    unfolding p by simp
qed

section \<open>Properties of the scan of many contexts\<close>

lemma record_outcome_maps:
  "map_of (fst (record_outcome (c, res) acc)) n =
     (if n = c \<and> \<not> isl res then Some (ContextEntry (projr res)) else map_of (fst acc) n)"
  "map_of (snd (record_outcome (c, res) acc)) n =
     (if n = c \<and> isl res then Some (error_message (projl res)) else map_of (snd acc) n)"
  by (auto simp: record_outcome_def update_conv' split: sum.splits prod.splits)

lemma record_outcome_distinct:
  "distinct (map fst (fst acc)) \<Longrightarrow> distinct (map fst (fst (record_outcome future acc)))"
  "distinct (map fst (snd acc)) \<Longrightarrow> distinct (map fst (snd (record_outcome future acc)))"
  by (auto simp: record_outcome_def distinct_update split: sum.splits prod.splits)

lemma fold_record_outcome_distinct:
  "distinct (map fst (fst acc))
     \<Longrightarrow> distinct (map fst (fst (fold record_outcome completed acc)))"
  "distinct (map fst (snd acc))
     \<Longrightarrow> distinct (map fst (snd (fold record_outcome completed acc)))"
  by (induction completed arbitrary: acc) (auto simp: record_outcome_distinct)

text \<open>When no name is submitted twice, the two dictionaries are read off the outcomes.\<close>

lemma fold_record_outcome_results:
  assumes "distinct (map fst completed)"
  shows "map_of (fst (fold record_outcome completed acc)) n =
           (case map_of completed n of
              Some (Inr r) \<Rightarrow> Some (ContextEntry r)
            | _ \<Rightarrow> map_of (fst acc) n)"
  using assms
proof (induction completed arbitrary: acc)
  case Nil
  then show ?case by simp
next
  case (Cons future completed)
  obtain c res where f: "future = (c, res)" by (cases future)
  have d: "distinct (map fst completed)" and c: "map_of completed c = None"
    using Cons.prems f by (auto simp: map_of_eq_None_iff)
  show ?case
    using Cons.IH[OF d, of "record_outcome (c, res) acc"] c
    by (auto simp: f record_outcome_maps split: option.splits sum.splits)
qed

lemma fold_record_outcome_errors:
  assumes "distinct (map fst completed)"
  shows "map_of (snd (fold record_outcome completed acc)) n =
           (case map_of completed n of
              Some (Inl exc) \<Rightarrow> Some (error_message exc)
            | _ \<Rightarrow> map_of (snd acc) n)"
  using assms
proof (induction completed arbitrary: acc)
  case Nil
  then show ?case by simp
next
  case (Cons future completed)
  obtain c res where f: "future = (c, res)" by (cases future)
  have d: "distinct (map fst completed)" and c: "map_of completed c = None"
    using Cons.prems f by (auto simp: map_of_eq_None_iff)
  show ?case
    using Cons.IH[OF d, of "record_outcome (c, res) acc"] c
    by (auto simp: f record_outcome_maps split: option.splits sum.splits)
qed

lemma collected_results:
  "distinct (map fst completed) \<Longrightarrow>
   map_of (fst (collected completed)) n =
     (case map_of completed n of Some (Inr r) \<Rightarrow> Some (ContextEntry r) | _ \<Rightarrow> None)"
  by (simp add: collected_def fold_record_outcome_results split: option.splits sum.splits)

lemma collected_errors:
  "distinct (map fst completed) \<Longrightarrow>
   map_of (snd (collected completed)) n =
     (case map_of completed n of Some (Inl exc) \<Rightarrow> Some (error_message exc) | _ \<Rightarrow> None)"
  by (simp add: collected_def fold_record_outcome_errors split: option.splits sum.splits)

lemma collected_distinct:
  "distinct (map fst (fst (collected completed)))"
  "distinct (map fst (snd (collected completed)))"
  by (simp_all add: collected_def fold_record_outcome_distinct)

lemma scan_multiple_contexts_eq:
  assumes "set (map fst completed) = set names"
  shows "scan_multiple_contexts names completed =
           (if snd (collected completed) \<noteq> []
            then AList.update ''__errors__'' (ErrorsEntry (snd (collected completed)))
                   (fst (collected completed))
            else fst (collected completed))"
proof (cases "names = []")
  case True
  then have "completed = []" using assms by simp
  then show ?thesis using True by (simp add: scan_multiple_contexts_def collected_def)
next
  case False
  then show ?thesis
    by (simp add: scan_multiple_contexts_def collected_def split: prod.splits)
qed

text \<open>
  What does hold of a call: when the names are distinct and no context literally named
  \<open>__errors__\<close> completes its scan, the two mappings that \<open>scan_images\<close> reads off the
  returned dictionary hold every failed context with its message and every scanned context
  with its result, and share no name.
\<close>

lemma scan_images_partition_distinct:
  assumes perm: "mset (map fst completed) = mset names"
    and dist: "distinct names"
    and reserved: "\<forall>r. (''__errors__'', Inr r) \<notin> set completed"
  shows "errors (scan_images names completed) = ErrorsEntry (snd (collected completed))"
    and "map_of (snd (collected completed)) n =
           (case map_of completed n of Some (Inl exc) \<Rightarrow> Some (error_message exc) | _ \<Rightarrow> None)"
    and "map_of (contexts (scan_images names completed)) n =
           (case map_of completed n of Some (Inr r) \<Rightarrow> Some (ContextEntry r) | _ \<Rightarrow> None)"
proof -
  have s: "set (map fst completed) = set names"
    using perm by (rule mset_eq_setD)
  have d: "distinct (map fst completed)"
    using perm dist by (metis mset_eq_imp_distinct_iff)
  let ?res = "fst (collected completed)" and ?errs = "snd (collected completed)"
  have r0: "map_of ?res ''__errors__'' = None"
  proof (cases "map_of completed ''__errors__''")
    case None
    then show ?thesis by (simp add: collected_results[OF d])
  next
    case (Some res)
    then have "(''__errors__'', res) \<in> set completed" by (rule map_of_SomeD)
    then have "isl res" using reserved by (cases res) auto
    then show ?thesis using Some by (cases res) (simp_all add: collected_results[OF d])
  qed
  show e: "map_of ?errs n =
           (case map_of completed n of Some (Inl exc) \<Rightarrow> Some (error_message exc) | _ \<Rightarrow> None)"
    by (rule collected_errors[OF d])
  have raw: "scan_multiple_contexts names completed =
           (if ?errs \<noteq> [] then AList.update ''__errors__'' (ErrorsEntry ?errs) ?res else ?res)"
    by (rule scan_multiple_contexts_eq[OF s])
  show "errors (scan_images names completed) = ErrorsEntry ?errs"
    using r0 by (auto simp: scan_images_def Let_def raw update_conv' entry_empty_def)
  show "map_of (contexts (scan_images names completed)) n =
           (case map_of completed n of Some (Inr r) \<Rightarrow> Some (ContextEntry r) | _ \<Rightarrow> None)"
    using r0 collected_results[OF d, of n]
    by (auto simp: scan_images_def Let_def raw update_conv' map_of_delete
             split: option.splits sum.splits)
qed

text \<open>The example of the claim: \<open>a\<close>, \<open>b\<close>, \<open>c\<close>, completing as \<open>c\<close>, \<open>b\<close>, \<open>a\<close>, with
  \<open>b\<close> refused.\<close>

lemma scan_images_abc:
  "scan_images [''a'', ''b'', ''c'']
     [(''c'', Inr redis_result), (''b'', Inl forbidden), (''a'', Inr redis_result)]
   = \<lparr>contexts = [(''c'', ContextEntry redis_result), (''a'', ContextEntry redis_result)],
      errors = ErrorsEntry [(''b'', ''Kubernetes API error: (403) Forbidden'')]\<rparr>"
  by code_simp

text \<open>
  A name that is submitted twice has two futures. When one of them fails and the other
  succeeds, the name is in both mappings.
\<close>

lemma scan_images_name_twice:
  "scan_images [''a'', ''a''] [(''a'', Inl forbidden), (''a'', Inr redis_result)]
   = \<lparr>contexts = [(''a'', ContextEntry redis_result)],
      errors = ErrorsEntry [(''a'', ''Kubernetes API error: (403) Forbidden'')]\<rparr>"
  by code_simp

subsection \<open>Successes and failures\<close>

text \<open>
  Claim C1 describes what the scan of many contexts is meant to do, and the code does not
  do it for a context literally named \<open>__errors__\<close>. The contexts \<open>__errors__\<close> and \<open>b\<close> are
  scanned; \<open>__errors__\<close> completes with a result and the listing of \<open>b\<close> is refused. The
  error dictionary is then stored under the key \<open>__errors__\<close> of the result dictionary, over
  the result of that context: the failure of \<open>b\<close> has removed the result of another context,
  which is in neither mapping.
\<close>

theorem scan_reserved_name_result_lost:
  "scan_multiple_contexts [''__errors__'', ''b'']
     [(''__errors__'', Inr redis_result), (''b'', Inl forbidden)]
   = [(''__errors__'', ErrorsEntry [(''b'', ''Kubernetes API error: (403) Forbidden'')])]
   \<and> scan_images [''__errors__'', ''b'']
       [(''__errors__'', Inr redis_result), (''b'', Inl forbidden)]
     = \<lparr>contexts = [],
        errors = ErrorsEntry [(''b'', ''Kubernetes API error: (403) Forbidden'')]\<rparr>"
  by code_simp

subsection \<open>The reserved key\<close>

text \<open>
  Claim C10 says that the key \<open>__errors__\<close> is present if and only if a context failed, as
  the docstring of \<open>scan_multiple_contexts\<close> does (present only if failures occur). The code
  does not keep to it: when the one context scanned is literally named \<open>__errors__\<close> and its
  scan completes, the key is present and holds the result of that context, although nothing
  failed; \<open>scan_images\<close> then hands out that result as the errors and lists no context.
\<close>

theorem errors_key_present_without_failure:
  "scan_multiple_contexts [''__errors__''] [(''__errors__'', Inr redis_result)]
   = [(''__errors__'', ContextEntry redis_result)]
   \<and> scan_images [''__errors__''] [(''__errors__'', Inr redis_result)]
     = \<lparr>contexts = [], errors = ContextEntry redis_result\<rparr>"
  by code_simp

end
